theory Spec2Isabelle
  imports Main "HOL-Library.Sublist"
begin

section \<open>Python strings\<close>

text \<open>
  A Python \<open>str\<close> is a sequence of Unicode code points; \<open>str.find\<close> and slicing count
  code points, not bytes. A code point is a natural number, and \<open>lit\<close> reads an ASCII
  literal. Characters outside ASCII, and the backslash, are written as numbers.
\<close>

type_synonym str = "nat list"

definition lit :: "string \<Rightarrow> str" where
  "lit s = map of_char s"

text \<open>
  \<open>s.find(sub)\<close>: the lowest index at which \<open>sub\<close> starts in \<open>s\<close>, or \<open>-1\<close>.
  The scan looks at each offset from the left; the empty \<open>sub\<close> is found at once,
  also in the empty string.
\<close>

fun find_from :: "'a list \<Rightarrow> 'a list \<Rightarrow> int \<Rightarrow> int" where
  "find_from sub [] i = (if sub = [] then i else - 1)"
| "find_from sub (c # cs) i =
     (if prefix sub (c # cs) then i else find_from sub cs (i + 1))"

definition str_find :: "'a list \<Rightarrow> 'a list \<Rightarrow> int" where
  "str_find s sub = find_from sub s 0"

text \<open>
  Slices \<open>s[:i]\<close> and \<open>s[i:]\<close>. Python never raises on a slice: a negative bound counts
  from the end, and a bound outside the string is clamped to it.
\<close>

definition slice_index :: "nat \<Rightarrow> int \<Rightarrow> nat" where
  "slice_index n i =
     (if i < 0 then (if i + int n < 0 then 0 else nat (i + int n))
      else if int n < i then n else nat i)"

definition slice_upto :: "'a list \<Rightarrow> int \<Rightarrow> 'a list" where
  "slice_upto s i = take (slice_index (length s) i) s"

definition slice_from :: "'a list \<Rightarrow> int \<Rightarrow> 'a list" where
  "slice_from s i = drop (slice_index (length s) i) s"

text \<open>
  An integer inside an f-string, \<open>{start_idx}\<close>, is formatted as \<open>str(start_idx)\<close>:
  decimal digits, with a leading minus sign for a negative number.
\<close>

function str_nat :: "nat \<Rightarrow> str" where
  "str_nat n = (if n < 10 then [48 + n] else str_nat (n div 10) @ [48 + n mod 10])"
  by pat_completeness auto
termination
  by (relation "measure id") auto

declare str_nat.simps [simp del]

definition str_int :: "int \<Rightarrow> str" where
  "str_int i = (if i < 0 then 45 # str_nat (nat (- i)) else str_nat (nat i))"

section \<open>The process and its environment\<close>

text \<open>
  The file system maps a path to the text that \<open>open(path, "r", encoding="utf-8").read()\<close>
  returns; a path with no readable file maps to \<open>None\<close>, and opening it raises.

  What the operating system does with \<open>open(path, "w")\<close> followed by \<open>f.write(text)\<close> is
  part of the environment too. It may accept the write: the file then holds \<open>text\<close>, and a
  later read returns it. It may refuse to open the file (a read-only file): the file is
  left as it was. Or the write may fail after the file was opened and truncated (a full
  disk): the file is left with the first \<open>n\<close> characters of \<open>text\<close>. The script catches no
  exception, so in the last two cases the run ends there.

  The effects of a run are logged in the order the script performs them; \<open>Wrote path t\<close>
  says that the run left \<open>t\<close> in the file. Below this model: the bytes on disk (UTF-8, and
  the newline translation of text mode) and the traceback on the error stream.
\<close>

datatype event = Read str str | Wrote str str | Printed str

datatype error = FileNotFoundError | PermissionError | OSError

datatype ending = Finished | SystemExit nat | Uncaught error

datatype access = Granted | Denied | Fails_after nat

record world =
  files :: "str \<rightharpoonup> str"
  write_access :: "str \<Rightarrow> access"
  stdout :: str
  effects :: "event list"

definition read_file :: "str \<Rightarrow> world \<Rightarrow> error + (str \<times> world)" where
  "read_file path w =
     (case files w path of
        None \<Rightarrow> Inl FileNotFoundError
      | Some text \<Rightarrow> Inr (text, w\<lparr>effects := effects w @ [Read path text]\<rparr>))"

definition write_file :: "str \<Rightarrow> str \<Rightarrow> world \<Rightarrow> error option \<times> world" where
  "write_file path text w =
     (case write_access w path of
        Granted \<Rightarrow>
          (None, w\<lparr>files := (files w)(path \<mapsto> text),
                    effects := effects w @ [Wrote path text]\<rparr>)
      | Denied \<Rightarrow> (Some PermissionError, w)
      | Fails_after n \<Rightarrow>
          (Some OSError, w\<lparr>files := (files w)(path \<mapsto> take n text),
                            effects := effects w @ [Wrote path (take n text)]\<rparr>))"

definition print :: "str \<Rightarrow> world \<Rightarrow> world" where
  "print s w = w\<lparr>stdout := stdout w @ s @ [10], effects := effects w @ [Printed s]\<rparr>"

text \<open>
  The exit status of the process: 0 when the script runs to its end, the argument of
  \<open>exit\<close>, and 1 after an exception nobody caught.
\<close>

fun exit_status :: "ending \<Rightarrow> nat" where
  "exit_status Finished = 0"
| "exit_status (SystemExit n) = n"
| "exit_status (Uncaught e) = 1"

section \<open>The script\<close>

text \<open>
  The f-string of the failure branch:
  \<open>f"Markers not found! start={start_idx}, end={end_idx}"\<close>.
\<close>

definition not_found_message :: "int \<Rightarrow> int \<Rightarrow> str" where
  "not_found_message start_idx end_idx =
     lit ''Markers not found! start='' @ str_int start_idx
     @ lit '', end='' @ str_int end_idx"

text \<open>
  The splice: \<open>new_content = content[:start_idx] + new_block + content[end_idx:]\<close>.
\<close>

definition new_content :: "str \<Rightarrow> int \<Rightarrow> int \<Rightarrow> str \<Rightarrow> str" where
  "new_content content start_idx end_idx replacement =
     slice_upto content start_idx @ replacement @ slice_from content end_idx"

text \<open>
  The body of \<open>patch_appointments.py\<close>, with the path, the two markers and the
  replacement block as parameters; the script itself fixes them to its literals below.
  An exception raised by \<open>open\<close> or \<open>write\<close> is caught nowhere and ends the run.
\<close>

definition patcher :: "str \<Rightarrow> str \<Rightarrow> str \<Rightarrow> str \<Rightarrow> world \<Rightarrow> ending \<times> world" where
  "patcher path startMarker endMarker replacement w =
     (case read_file path w of
        Inl e \<Rightarrow> (Uncaught e, w)
      | Inr (content, w1) \<Rightarrow>
          let start_idx = str_find content startMarker;
              end_idx = str_find content endMarker
          in if start_idx = - 1 \<or> end_idx = - 1
             then (SystemExit 1, print (not_found_message start_idx end_idx) w1)
             else
               (case write_file path (new_content content start_idx end_idx replacement) w1 of
                  (Some e, w2) \<Rightarrow> (Uncaught e, w2)
                | (None, w2) \<Rightarrow>
                    (Finished, print (lit ''Successfully patched appointments.js'') w2)))"

section \<open>The literals of the script\<close>

text \<open>
  \<open>file_path\<close> is a raw string: its backslashes (code point 92) stand for themselves.
\<close>

definition file_path :: str where
  \<open>file_path =
     lit ''c:'' @ [92] @
     lit ''Users'' @ [92] @
     lit ''usuario'' @ [92] @
     lit ''Desktop'' @ [92] @
     lit ''pelu-turnos'' @ [92] @
     lit ''backend'' @ [92] @
     lit ''src'' @ [92] @
     lit ''routes'' @ [92] @
     lit ''appointments.js''\<close>

definition start_marker :: str where
  \<open>start_marker = lit ''// Notificar al estilista si existe mapping user_id''\<close>

definition end_marker :: str where
  \<open>end_marker =
     lit ''// Notificar al cliente por push (si tiene token registrado en customer_app_settings)''\<close>

definition new_block_lines :: "str list" where
  \<open>new_block_lines =
    [
     lit ''      // Notificar al estilista (Internal Notification, WhatsApp, Email)'',
     lit ''      try { await pool.query(`ALTER TABLE instructor ADD COLUMN phone_e164 VARCHAR(32) NULL`); } catch {}'',
     [],
     lit ''      const [[inst]] = await pool.query('',
     lit ''        "SELECT id, user_id, phone_e164, name FROM instructor WHERE id=? AND tenant_id=? LIMIT 1",'',
     lit ''        [instructorId, tenantId]'',
     lit ''      );'',
     [],
     lit ''      if (inst) {'',
     lit ''        // 1. Notificaci'' @ [243] @ lit ''n interna (si tiene usuario)'',
     lit ''        if (inst.user_id) {'',
     lit ''          await createNotification({'',
     lit ''            tenantId,'',
     lit ''            userId: inst.user_id,'',
     lit ''            type: "appointment",'',
     lit ''            title: "Te asignaron un nuevo turno",'',
     lit ''            message: `${customerLabel} '' @ [8212] @ lit '' ${serviceLabel} '' @ [8212] @ lit '' Inicio: ${startsAt}`,'',
     lit ''            data: { tenantId, appointmentId, instructorId, serviceId, customerId: effectiveCustomerId, startsAt, endsAt: endMySQL }'',
     lit ''          });'',
     lit ''        }'',
     [],
     lit ''        // 2. WhatsApp (si tiene tel'' @ [233] @ lit ''fono)'',
     lit ''        if (inst.phone_e164 && sendWhatsAppText) {'',
     lit ''          try {'',
     lit ''            const whenLabel = fmtLocal(startMySQL.replace(" ", "T"));'',
     lit ''            const cName = c?.name || "Cliente";'',
     lit ''            const cPhone = c?.phone || "";'',
     lit ''            const cText = cPhone ? `${cName} (${cPhone})` : cName;'',
     [],
     lit ''            const msg = `Hola ${inst.name || "'' @ [128100] @ lit ''"}!'' @ [92] @ lit ''n'' @ [92] @ lit ''nNuevo turno asignado:'' @ [92] @ lit ''n` +'',
     lit ''                        `'' @ [8226] @ lit '' Cliente: ${cText}'' @ [92] @ lit ''n` +'',
     lit ''                        `'' @ [8226] @ lit '' Servicio: ${serviceLabel}'' @ [92] @ lit ''n` +'',
     lit ''                        `'' @ [8226] @ lit '' Horario: ${whenLabel}`;'',
     lit ''            '',
     lit ''            try {'',
     lit ''              await sendWhatsAppText(inst.phone_e164, msg, tenantId);'',
     lit ''            } catch (waErr) {'',
     lit ''              if (waErr.code === 131047 && sendWhatsAppTemplate) {'',
     lit ''                const langs = ["es", "es_AR", "es_419"];'',
     lit ''                for (const lang of langs) {'',
     lit ''                  try {'',
     lit ''                    await sendWhatsAppTemplate('',
     lit ''                      inst.phone_e164,'',
     lit ''                      "nuevo_turno_profesional",'',
     lit ''                      lang,'',
     lit ''                      ['',
     lit ''                        { type: "body", parameters: ['',
     lit ''                          { type: "text", text: inst.name || "Profesional" },'',
     lit ''                          { type: "text", text: cText },'',
     lit ''                          { type: "text", text: serviceLabel },'',
     lit ''                          { type: "text", text: whenLabel }'',
     lit ''                        ] }'',
     lit ''                      ],'',
     lit ''                      tenantId'',
     lit ''                    );'',
     lit ''                    break;'',
     lit ''                  } catch {}'',
     lit ''                }'',
     lit ''              }'',
     lit ''            }'',
     lit ''          } catch (waSendErr) {'',
     lit ''            console.error("'' @ [9888, 65039] @ lit '' [appointments] Error enviando WhatsApp al peluquero:", waSendErr?.message || waSendErr);'',
     lit ''          }'',
     lit ''        }'',
     [],
     lit ''        // 3. Email (si tiene usuario y email)'',
     lit ''        if (inst.user_id) {'',
     lit ''          try {'',
     lit ''            const [[u]] = await pool.query('',
     lit ''              "SELECT email FROM users WHERE id = ? AND tenant_id = ? LIMIT 1",'',
     lit ''              [inst.user_id, tenantId]'',
     lit ''            );'',
     lit ''            if (u?.email) {'',
     lit ''              const { sendEmail } = await import("../email.js").catch(() => ({ sendEmail: null }));'',
     lit ''              if (sendEmail) {'',
     lit ''                const whenLabel = fmtLocal(startMySQL.replace(" ", "T"));'',
     lit ''                const cName = c?.name || "Cliente";'',
     lit ''                const cPhone = c?.phone || "";'',
     lit ''                const cText = cPhone ? `${cName} (${cPhone})` : cName;'',
     lit ''                '',
     lit ''                const subject = "Nuevo turno asignado";'',
     lit ''                const html = ['',
     lit ''                  `<p>Se te asign'' @ [243] @ lit '' un nuevo turno.</p>`,'',
     lit ''                  `<p><strong>Cliente:</strong> ${cText}</p>`,'',
     lit ''                  `<p><strong>Servicio:</strong> ${serviceLabel}</p>`,'',
     lit ''                  `<p><strong>Horario:</strong> ${whenLabel}</p>`'',
     lit ''                ].join("");'',
     lit ''                await sendEmail({ to: u.email, subject, html, tenantId });'',
     lit ''                console.log(`'' @ [9989] @ lit '' [appointments] Email enviado al peluquero ${u.email}`);'',
     lit ''              }'',
     lit ''            }'',
     lit ''          } catch (emailErr) {'',
     lit ''            console.error("'' @ [9888, 65039] @ lit '' [appointments] Error enviando email al peluquero:", emailErr?.message || emailErr);'',
     lit ''          }'',
     lit ''        }'',
     lit ''      }'',
     []
    ]\<close>

text \<open>
  \<open>new_block\<close> is one triple-quoted literal: the lines above, each ended by a newline
  (the last line is empty, so the block ends with two newlines). Its \<open>\\n\<close> is a
  backslash followed by \<open>n\<close>, not a newline.
\<close>

definition new_block :: str where
  "new_block = concat (map (\<lambda>l. l @ [10]) new_block_lines)"

definition patch_appointments :: "world \<Rightarrow> ending \<times> world" where
  "patch_appointments = patcher file_path start_marker end_marker new_block"

section \<open>Occurrences of a marker\<close>

text \<open>
  The vocabulary of the properties: \<open>sub\<close> occurs in \<open>s\<close> at offset \<open>k\<close>, and \<open>k\<close> is
  the first such offset. That \<open>sub\<close> occurs somewhere in \<open>s\<close> is \<open>sublist sub s\<close>.
\<close>

definition occurs_at :: "'a list \<Rightarrow> 'a list \<Rightarrow> nat \<Rightarrow> bool" where
  "occurs_at sub s k \<longleftrightarrow> k \<le> length s \<and> prefix sub (drop k s)"

definition first_occurrence :: "'a list \<Rightarrow> 'a list \<Rightarrow> nat \<Rightarrow> bool" where
  "first_occurrence sub s k \<longleftrightarrow> occurs_at sub s k \<and> (\<forall>j\<in>{..<k}. \<not> occurs_at sub s j)"


section \<open>What \<open>str.find\<close> returns\<close>

lemma occurs_at_0: "occurs_at sub s 0 \<longleftrightarrow> prefix sub s"
  by (simp add: occurs_at_def)

lemma occurs_at_Suc: "occurs_at sub (c # cs) (Suc k) \<longleftrightarrow> occurs_at sub cs k"
  by (simp add: occurs_at_def)

lemma occurs_at_Nil: "occurs_at sub [] k \<longleftrightarrow> k = 0 \<and> sub = []"
  by (auto simp: occurs_at_def)

lemma first_occurrence_Cons:
  "first_occurrence sub (c # cs) k \<longleftrightarrow>
     (if prefix sub (c # cs) then k = 0
      else \<exists>k'. k = Suc k' \<and> first_occurrence sub cs k')"
proof (cases k)
  case 0
  then show ?thesis by (simp add: first_occurrence_def occurs_at_0)
next
  case (Suc k')
  have "(\<forall>j\<in>{..<Suc k'}. \<not> occurs_at sub (c # cs) j) \<longleftrightarrow>
        \<not> prefix sub (c # cs) \<and> (\<forall>j\<in>{..<k'}. \<not> occurs_at sub cs j)"
  proof -
    have "(\<forall>j<Suc k'. \<not> occurs_at sub (c # cs) j) \<longleftrightarrow>
          \<not> occurs_at sub (c # cs) 0 \<and> (\<forall>j<k'. \<not> occurs_at sub (c # cs) (Suc j))"
      by (metis less_Suc_eq_0_disj Suc_less_eq zero_less_Suc)
    then show ?thesis unfolding Ball_def lessThan_iff by (simp only: occurs_at_0 occurs_at_Suc)
  qed
  with Suc show ?thesis by (auto simp: first_occurrence_def occurs_at_Suc)
qed

lemma find_from_first:
  "first_occurrence sub s k \<Longrightarrow> find_from sub s i = i + int k"
proof (induction s arbitrary: i k)
  case Nil
  then show ?case by (simp add: first_occurrence_def occurs_at_Nil)
next
  case (Cons c cs)
  then show ?case by (auto simp: first_occurrence_Cons split: if_splits)
qed

lemma find_from_none:
  "(\<And>k. \<not> occurs_at sub s k) \<Longrightarrow> find_from sub s i = - 1"
proof (induction s arbitrary: i)
  case Nil
  then show ?case using occurs_at_Nil[of sub 0] by auto
next
  case (Cons c cs)
  have "\<not> prefix sub (c # cs)" using Cons.prems[of 0] by (simp add: occurs_at_0)
  moreover have "\<And>k. \<not> occurs_at sub cs k" using Cons.prems[of "Suc _"] by (simp add: occurs_at_Suc)
  ultimately show ?case using Cons.IH by simp
qed

lemma first_occurrence_exists:
  "occurs_at sub s k \<Longrightarrow> \<exists>j\<le>k. first_occurrence sub s j"
proof -
  assume a: "occurs_at sub s k"
  define j where "j = (LEAST n. occurs_at sub s n)"
  have "occurs_at sub s j" unfolding j_def using a by (rule LeastI)
  moreover have "j \<le> k" unfolding j_def using a by (rule Least_le)
  moreover have "\<forall>n\<in>{..<j}. \<not> occurs_at sub s n"
    unfolding j_def using not_less_Least by auto
  ultimately show ?thesis unfolding first_occurrence_def by blast
qed

lemma first_occurrence_unique:
  "first_occurrence sub s j \<Longrightarrow> first_occurrence sub s k \<Longrightarrow> j = k"
  unfolding first_occurrence_def by (metis lessThan_iff nat_neq_iff)

lemma sublist_occurs: "sublist sub s \<longleftrightarrow> (\<exists>k. occurs_at sub s k)"
proof
  assume "sublist sub s"
  then obtain ps ss where "s = ps @ sub @ ss" by (auto simp: sublist_def)
  then have "occurs_at sub s (length ps)" by (simp add: occurs_at_def)
  then show "\<exists>k. occurs_at sub s k" ..
next
  assume "\<exists>k. occurs_at sub s k"
  then obtain k where "k \<le> length s" "prefix sub (drop k s)" by (auto simp: occurs_at_def)
  then obtain ss where "drop k s = sub @ ss" by (auto simp: prefix_def)
  then have "s = take k s @ sub @ ss" by (metis append_take_drop_id)
  then show "sublist sub s" unfolding sublist_def by blast
qed

lemma str_find_first: "first_occurrence sub s k \<Longrightarrow> str_find s sub = int k"
  by (simp add: str_find_def find_from_first)

lemma str_find_absent: "\<not> sublist sub s \<Longrightarrow> str_find s sub = - 1"
  by (simp add: str_find_def find_from_none sublist_occurs)

lemma str_find_cases:
  "(\<not> sublist sub s \<and> str_find s sub = - 1) \<or>
   (\<exists>k. first_occurrence sub s k \<and> str_find s sub = int k)"
proof (cases "sublist sub s")
  case True
  then obtain k where "first_occurrence sub s k"
    using first_occurrence_exists unfolding sublist_occurs by blast
  then show ?thesis using str_find_first by blast
next
  case False
  then show ?thesis by (simp add: str_find_absent)
qed

lemma first_occurrence_sublist: "first_occurrence sub s k \<Longrightarrow> sublist sub s"
  unfolding first_occurrence_def sublist_occurs by blast

lemma str_find_eq_minus1: "str_find s sub = - 1 \<longleftrightarrow> \<not> sublist sub s"
  using str_find_cases[of sub s] first_occurrence_sublist[of sub s] by auto

lemma str_find_eq_index: "str_find s sub = int k \<longleftrightarrow> first_occurrence sub s k"
  using str_find_cases[of sub s] first_occurrence_unique[of sub s] str_find_first[of sub s k]
  by auto

section \<open>The two branches of the script\<close>

lemma occurs_at_length: "occurs_at sub s k \<Longrightarrow> k + length sub \<le> length s"
  by (auto simp: occurs_at_def dest!: prefix_length_le)

lemma first_occurrence_le: "first_occurrence sub s k \<Longrightarrow> k \<le> length s"
  by (simp add: first_occurrence_def occurs_at_def)

lemma slice_upto_nat: "slice_upto s (int k) = take k s"
  by (simp add: slice_upto_def slice_index_def)

lemma slice_from_nat: "slice_from s (int k) = drop k s"
  by (simp add: slice_from_def slice_index_def)

lemma str_nat_digits: "set (str_nat n) \<subseteq> {48..57}"
proof (induction n rule: str_nat.induct)
  case (1 n)
  show ?case
  proof (cases "n < 10")
    case True
    then show ?thesis by (subst str_nat.simps) simp
  next
    case False
    have "n mod 10 < 10" by simp
    then have "48 + n mod 10 \<in> {48..57}" by simp
    with False 1 show ?thesis by (subst str_nat.simps) simp
  qed
qed




lemma str_int_minus1: "str_int (- 1) = lit ''-1''"
  by (simp add: str_int_def str_nat.simps lit_def)

lemma str_int_no_newline: "10 \<notin> set (str_int i)"
  using str_nat_digits[of "nat (- i)"] str_nat_digits[of "nat i"]
  by (auto simp: str_int_def)

lemma not_found_message_one_line: "10 \<notin> set (not_found_message a b)"
  by (simp add: not_found_message_def str_int_no_newline lit_def)


lemma new_content_first:
  assumes "first_occurrence startMarker text i" and "first_occurrence endMarker text j"
  shows "new_content text (str_find text startMarker) (str_find text endMarker) replacement
         = take i text @ replacement @ drop j text"
  using assms by (simp add: new_content_def str_find_first slice_upto_nat slice_from_nat)

lemma patcher_found:
  assumes "files w path = Some text"
    and "first_occurrence startMarker text i"
    and "first_occurrence endMarker text j"
  shows "patcher path startMarker endMarker replacement w =
     (case write_access w path of
        Granted \<Rightarrow>
          (Finished,
           w\<lparr>files := (files w)(path \<mapsto> take i text @ replacement @ drop j text),
             stdout := stdout w @ lit ''Successfully patched appointments.js'' @ [10],
             effects := effects w @
               [Read path text,
                Wrote path (take i text @ replacement @ drop j text),
                Printed (lit ''Successfully patched appointments.js'')]\<rparr>)
      | Denied \<Rightarrow>
          (Uncaught PermissionError, w\<lparr>effects := effects w @ [Read path text]\<rparr>)
      | Fails_after n \<Rightarrow>
          (Uncaught OSError,
           w\<lparr>files := (files w)(path \<mapsto> take n (take i text @ replacement @ drop j text)),
             effects := effects w @
               [Read path text,
                Wrote path (take n (take i text @ replacement @ drop j text))]\<rparr>))"
proof -
  have nc: "new_content text (int i) (int j) replacement
            = take i text @ replacement @ drop j text"
    by (simp add: new_content_def slice_upto_nat slice_from_nat)
  show ?thesis
    using assms
    by (simp add: patcher_def read_file_def write_file_def print_def Let_def
        str_find_first nc split: access.split)
qed

lemma patcher_found_granted:
  assumes "files w path = Some text"
    and "first_occurrence startMarker text i"
    and "first_occurrence endMarker text j"
    and "write_access w path = Granted"
  shows "patcher path startMarker endMarker replacement w =
     (Finished,
      w\<lparr>files := (files w)(path \<mapsto> take i text @ replacement @ drop j text),
        stdout := stdout w @ lit ''Successfully patched appointments.js'' @ [10],
        effects := effects w @
          [Read path text,
           Wrote path (take i text @ replacement @ drop j text),
           Printed (lit ''Successfully patched appointments.js'')]\<rparr>)"
  by (simp add: patcher_found[OF assms(1-3)] assms(4))

lemma patcher_finished_granted:
  assumes "fst (patcher path startMarker endMarker replacement w) = Finished"
  shows "write_access w path = Granted"
  using assms
  by (auto simp: patcher_def read_file_def write_file_def Let_def
      split: option.splits access.splits if_splits)

lemma patcher_not_found:
  assumes "files w path = Some text"
    and "\<not> sublist startMarker text \<or> \<not> sublist endMarker text"
  shows "patcher path startMarker endMarker replacement w =
     (SystemExit 1,
      w\<lparr>stdout := stdout w
           @ not_found_message (str_find text startMarker) (str_find text endMarker) @ [10],
        effects := effects w @
          [Read path text,
           Printed (not_found_message (str_find text startMarker) (str_find text endMarker))]\<rparr>)"
proof -
  have "str_find text startMarker = - 1 \<or> str_find text endMarker = - 1"
    using assms(2) by (auto simp: str_find_eq_minus1)
  then show ?thesis using assms(1)
    by (simp add: patcher_def read_file_def print_def Let_def)
qed

section \<open>Occurrences in a concatenation\<close>

lemma sublist_in_line:
  assumes "nl \<notin> set m" and "m \<noteq> []"
    and "sublist m (concat (map (\<lambda>l. l @ [nl]) ls))"
  shows "\<exists>l\<in>set ls. sublist m l"
  using assms(3)
proof (induction ls)
  case Nil
  then show ?case using assms(2) by simp
next
  case (Cons l ls)
  let ?rest = "concat (map (\<lambda>l. l @ [nl]) ls)"
  have no_suffix: "\<not> suffix u (l @ [nl])" if "u \<noteq> []" "set u \<subseteq> set m" for u
  proof
    assume "suffix u (l @ [nl])"
    then obtain zs where "l @ [nl] = zs @ u" by (auto simp: suffix_def)
    then have "last (l @ [nl]) = last (zs @ u)" by simp
    then have "last u = nl" using that(1) by simp
    then have "nl \<in> set u" using that(1) last_in_set by metis
    then show False using that(2) assms(1) by auto
  qed
  from Cons.prems have "sublist m ((l @ [nl]) @ ?rest)" by simp
  then consider "sublist m (l @ [nl])" | "sublist m ?rest"
    | u v where "m = u @ v" "suffix u (l @ [nl])" "prefix v ?rest"
    unfolding sublist_append by blast
  then show ?case
  proof cases
    case 1
    then have "suffix m (l @ [nl]) \<or> sublist m l" by (simp only: sublist_snoc)
    then have "sublist m l" using no_suffix[of m] assms(2) by auto
    then show ?thesis by simp
  next
    case 2
    then show ?thesis using Cons.IH by simp
  next
    case 3
    have "u = []" using no_suffix[of u] 3(1,2) by auto
    then have "sublist m ?rest" using 3(1,3) by auto
    then show ?thesis using Cons.IH by simp
  qed
qed

lemma unlines_last:
  "ls \<noteq> [] \<Longrightarrow> \<exists>b. concat (map (\<lambda>l. l @ [nl]) ls) = b @ [nl]"
proof (induction ls rule: rev_induct)
  case Nil
  then show ?case by simp
next
  case (snoc l ls)
  have "concat (map (\<lambda>l. l @ [nl]) (ls @ [l])) = (concat (map (\<lambda>l. l @ [nl]) ls) @ l) @ [nl]"
    by simp
  then show ?case by blast
qed

text \<open>
  An occurrence of \<open>m\<close> in \<open>A @ B @ C\<close> lies wholly in \<open>A\<close> or wholly in \<open>C\<close> when \<open>m\<close>
  does not occur in \<open>B\<close>, cannot end on the first character of \<open>B\<close> or run over its
  first two, and cannot run over the last character of \<open>B\<close>.
\<close>

lemma occurs_at_three_parts:
  assumes occ: "occurs_at m (A @ B @ C) k"
    and inside: "\<not> sublist m B"
    and tail: "B = b @ [z]" "z \<notin> set m"
    and head: "B = x # x # b'" "last m \<noteq> x" "\<not> sublist [x, x] m"
    and ne: "m \<noteq> []"
  shows "k + length m \<le> length A \<or> length A + length B \<le> k"
proof (rule ccontr)
  assume neg: "\<not> (k + length m \<le> length A \<or> length A + length B \<le> k)"
  have pre: "prefix m (drop k (A @ B @ C))" using occ by (simp add: occurs_at_def)
  show False
  proof (cases "k < length A")
    case True
    have "prefix m (drop k A @ (B @ C))" using pre True by simp
    then consider "prefix m (drop k A)" | us where "m = drop k A @ us" "prefix us (B @ C)"
      unfolding prefix_append by blast
    then show False
    proof cases
      case 1
      then have "length m \<le> length A - k" using prefix_length_le by fastforce
      then show False using neg True by simp
    next
      case 2
      have u: "drop k A \<noteq> []" using True by simp
      show False
      proof (cases us)
        case Nil
        then have "prefix m (drop k A)" using 2(1) by simp
        then have "length m \<le> length A - k" using prefix_length_le by fastforce
        then show False using neg True by simp
      next
        case (Cons y ys)
        then have y: "y = x" "prefix ys (x # b' @ C)" using 2(2) head(1) by auto
        show False
        proof (cases ys)
          case Nil
          then have "last m = x" using 2(1) Cons y(1) by simp
          then show False using head(2) by simp
        next
          case (Cons y' ys')
          then have "y' = x" using y(2) by auto
          then have "m = drop k A @ [x, x] @ ys'" using 2(1) \<open>us = y # ys\<close> Cons y(1) by simp
          then have "sublist [x, x] m" unfolding sublist_def by blast
          then show False using head(3) by simp
        qed
      qed
    qed
  next
    case False
    define k' where "k' = k - length A"
    have k': "k' < length B" using neg False unfolding k'_def by linarith
    have "drop k (A @ B @ C) = drop k' B @ C" using False k' by (simp add: k'_def)
    then have "prefix m (drop k' B @ C)" using pre by simp
    then consider "prefix m (drop k' B)" | us where "m = drop k' B @ us"
      unfolding prefix_append by blast
    then show False
    proof cases
      case 1
      then have "sublist m (drop k' B)" by (rule prefix_imp_sublist)
      then have "sublist m B" using sublist_drop sublist_order.order_trans by blast
      then show False using inside by simp
    next
      case 2
      have "drop k' B \<noteq> []" using k' by simp
      then have "last (drop k' B) = last B" using k' by simp
      then have "last (drop k' B) = z" using tail(1) by simp
      then have "z \<in> set (drop k' B)" using \<open>drop k' B \<noteq> []\<close> last_in_set by metis
      then have "z \<in> set m" using 2 by (metis Un_iff set_append)
      then show False using tail(2) by simp
    qed
  qed
qed

lemma occurs_at_iff_take:
  "occurs_at m s k \<longleftrightarrow> k + length m \<le> length s \<and> take (length m) (drop k s) = m"
proof
  assume a: "occurs_at m s k"
  then have "prefix m (drop k s)" by (simp add: occurs_at_def)
  then have "take (length m) (drop k s) = m" by (auto simp: prefix_def)
  then show "k + length m \<le> length s \<and> take (length m) (drop k s) = m"
    using occurs_at_length[OF a] by simp
next
  assume "k + length m \<le> length s \<and> take (length m) (drop k s) = m"
  then have "k \<le> length s" "prefix m (drop k s)"
    by (simp, metis take_is_prefix)
  then show "occurs_at m s k" by (simp add: occurs_at_def)
qed

lemma occurs_at_in_kept_prefix:
  assumes "occurs_at m (take i s @ x) k" and "k + length m \<le> i" and "i \<le> length s"
  shows "occurs_at m s k"
proof -
  have "drop k (take i s @ x) = take (i - k) (drop k s) @ x"
    using assms(2,3) by (simp add: drop_take)
  moreover have "length m \<le> length (take (i - k) (drop k s))"
    using assms(2,3) by simp
  ultimately have "take (length m) (drop k (take i s @ x)) = take (length m) (drop k s)"
    using assms(2,3) by (simp add: min_def)
  then show ?thesis
    using assms unfolding occurs_at_iff_take by simp
qed

lemma occurs_at_in_kept_suffix:
  assumes "occurs_at m (take i s @ b @ drop j s) k" and "i + length b \<le> k"
    and "i \<le> length s" and "j \<le> length s"
  shows "occurs_at m s (k - (i + length b) + j)"
proof -
  have "drop k (take i s @ b @ drop j s) = drop (k - (i + length b)) (drop j s)"
    using assms(2,3) by simp
  then have d: "drop k (take i s @ b @ drop j s) = drop (k - (i + length b) + j) s"
    by simp
  have "k + length m \<le> length (take i s @ b @ drop j s)"
    using assms(1) by (rule occurs_at_length)
  then have "k - (i + length b) + j + length m \<le> length s"
    using assms(2,3,4) by simp
  then show ?thesis
    using assms(1) unfolding occurs_at_iff_take d by simp
qed

lemma first_occurrence_least:
  "first_occurrence m s i \<Longrightarrow> occurs_at m s k \<Longrightarrow> i \<le> k"
  unfolding first_occurrence_def by (meson lessThan_iff not_le)

lemma first_occurrence_at_front: "first_occurrence m (m @ x) 0"
  by (simp add: first_occurrence_def occurs_at_def)

lemma only_occurrence:
  assumes "first_occurrence m s i" and "\<not> sublist m (drop (Suc i) s)"
  shows "\<forall>k. occurs_at m s k \<longrightarrow> k = i"
proof (intro allI impI)
  fix k assume k: "occurs_at m s k"
  have "i \<le> k" using assms(1) k by (rule first_occurrence_least)
  moreover have False if "i < k"
  proof -
    have "drop (k - Suc i) (drop (Suc i) s) = drop k s" using that by simp
    moreover have "k - Suc i \<le> length (drop (Suc i) s)"
      using k that unfolding occurs_at_def by (simp add: diff_le_mono)
    ultimately have "occurs_at m (drop (Suc i) s) (k - Suc i)"
      using k unfolding occurs_at_def by simp
    then show False using assms(2) sublist_occurs by blast
  qed
  ultimately show "k = i" by force
qed

section \<open>Facts about the literals\<close>

text \<open>
  Each marker holds a pair of characters that no line of \<open>new_block\<close> holds:
  \<open>xi\<close> in the start marker, \<open>tt\<close> in the end marker. The markers hold no newline,
  so an occurrence in \<open>new_block\<close> would lie in one line.
\<close>

lemma xi_not_in_lines:
  "list_all (\<lambda>l. find_from (lit ''xi'') l 0 = (- 1::int)) new_block_lines"
  unfolding new_block_lines_def lit_def list.map
  apply (simp only: list_all_Cons_iff list_all_Nil_iff find_from.simps Cons_prefix_Cons
      prefix_Nil of_char_eq_iff char.inject simp_thms if_False if_True list.simps
      append.simps numeral_eq_iff num.inject num.distinct)
  apply simp
  done

lemma tt_not_in_lines:
  "list_all (\<lambda>l. find_from (lit ''tt'') l 0 = (- 1::int)) new_block_lines"
  unfolding new_block_lines_def lit_def list.map
  apply (simp only: list_all_Cons_iff list_all_Nil_iff find_from.simps Cons_prefix_Cons
      prefix_Nil of_char_eq_iff char.inject simp_thms if_False if_True list.simps
      append.simps numeral_eq_iff num.inject num.distinct)
  apply simp
  done

lemma start_marker_facts:
  "start_marker \<noteq> []" "10 \<notin> set start_marker" "last start_marker \<noteq> 32"
  "str_find start_marker [32, 32] = - 1"
  "str_find start_marker (lit ''xi'') \<noteq> - 1"
  by (simp_all add: start_marker_def lit_def str_find_def)

lemma end_marker_facts:
  "end_marker \<noteq> []" "10 \<notin> set end_marker" "last end_marker \<noteq> 32"
  "str_find end_marker [32, 32] = - 1"
  "str_find end_marker (lit ''tt'') \<noteq> - 1"
  by (simp_all add: end_marker_def lit_def str_find_def)

lemma new_block_head: "\<exists>b'. new_block = 32 # 32 # b'"
proof -
  have "\<exists>l ls. new_block_lines = (of_char CHR '' '' # of_char CHR '' '' # l) # ls"
    unfolding new_block_lines_def lit_def list.map by (intro exI) (rule refl)
  then obtain l ls where ls: "new_block_lines = (of_char CHR '' '' # of_char CHR '' '' # l) # ls"
    by blast
  show ?thesis unfolding new_block_def ls by simp
qed

lemma new_block_last: "\<exists>b. new_block = b @ [10]"
proof -
  have "new_block_lines \<noteq> []" unfolding new_block_lines_def by (rule list.distinct)
  then show ?thesis unfolding new_block_def by (rule unlines_last)
qed

lemma start_marker_not_in_new_block: "\<not> sublist start_marker new_block"
proof
  assume "sublist start_marker new_block"
  then obtain l where l: "l \<in> set new_block_lines" "sublist start_marker l"
    using sublist_in_line[of 10 start_marker new_block_lines] start_marker_facts(1,2)
    unfolding new_block_def by blast
  have "sublist (lit ''xi'') start_marker"
    using start_marker_facts(5) by (simp add: str_find_eq_minus1)
  then have "sublist (lit ''xi'') l" using l(2) sublist_order.order_trans by blast
  moreover have "str_find l (lit ''xi'') = - 1"
    using xi_not_in_lines l(1) by (simp add: list_all_iff str_find_def)
  ultimately show False by (simp add: str_find_eq_minus1)
qed

lemma end_marker_not_in_new_block: "\<not> sublist end_marker new_block"
proof
  assume "sublist end_marker new_block"
  then obtain l where l: "l \<in> set new_block_lines" "sublist end_marker l"
    using sublist_in_line[of 10 end_marker new_block_lines] end_marker_facts(1,2)
    unfolding new_block_def by blast
  have "sublist (lit ''tt'') end_marker"
    using end_marker_facts(5) by (simp add: str_find_eq_minus1)
  then have "sublist (lit ''tt'') l" using l(2) sublist_order.order_trans by blast
  moreover have "str_find l (lit ''tt'') = - 1"
    using tt_not_in_lines l(1) by (simp add: list_all_iff str_find_def)
  ultimately show False by (simp add: str_find_eq_minus1)
qed

lemma start_marker_outside_new_block:
  assumes "occurs_at start_marker (A @ new_block @ C) k"
  shows "k + length start_marker \<le> length A \<or> length A + length new_block \<le> k"
proof -
  obtain b where b: "new_block = b @ [10]" using new_block_last by blast
  obtain b' where b': "new_block = 32 # 32 # b'" using new_block_head by blast
  have "\<not> sublist [32, 32] start_marker"
    using start_marker_facts(4) by (simp add: str_find_eq_minus1)
  then show ?thesis
    using occurs_at_three_parts[OF assms start_marker_not_in_new_block b
        start_marker_facts(2) b' start_marker_facts(3) _ start_marker_facts(1)]
    by blast
qed

lemma end_marker_outside_new_block:
  assumes "occurs_at end_marker (A @ new_block @ C) k"
  shows "k + length end_marker \<le> length A \<or> length A + length new_block \<le> k"
proof -
  obtain b where b: "new_block = b @ [10]" using new_block_last by blast
  obtain b' where b': "new_block = 32 # 32 # b'" using new_block_head by blast
  have "\<not> sublist [32, 32] end_marker"
    using end_marker_facts(4) by (simp add: str_find_eq_minus1)
  then show ?thesis
    using occurs_at_three_parts[OF assms end_marker_not_in_new_block b
        end_marker_facts(2) b' end_marker_facts(3) _ end_marker_facts(1)]
    by blast
qed

lemma marker_occurrence_is_old:
  assumes "m = start_marker \<or> m = end_marker"
    and "occurs_at m (take i s @ new_block @ drop j s) k"
    and "i \<le> length s" and "j \<le> length s"
  shows "(k + length m \<le> i \<and> occurs_at m s k)
       \<or> (i + length new_block \<le> k \<and> occurs_at m s (k - (i + length new_block) + j))"
proof -
  have "k + length m \<le> length (take i s) \<or> length (take i s) + length new_block \<le> k"
    using assms(1,2) start_marker_outside_new_block end_marker_outside_new_block by blast
  then have "k + length m \<le> i \<or> i + length new_block \<le> k"
    using assms(3) by simp
  then show ?thesis
    using occurs_at_in_kept_prefix[OF assms(2) _ assms(3)]
      occurs_at_in_kept_suffix[OF assms(2) _ assms(3,4)]
    by blast
qed

lemma markers_text:
  "str_find (drop 1 (start_marker @ end_marker)) start_marker = - 1"
  "str_find (start_marker @ end_marker) end_marker = int (length start_marker)"
  by (simp_all add: start_marker_def end_marker_def lit_def str_find_def)

section \<open>The claims\<close>

text \<open>
  C1. For every document text in which both markers occur, with \<open>startIndex\<close> and
  \<open>endIndex\<close> the first occurrences of the start and of the end marker, the patched
  output \<open>new_content\<close> is \<open>text[0:startIndex] + replacement + text[endIndex:]\<close>. The end
  marker's own text stays: the kept tail begins with it. A run whose write is accepted
  finishes, and a run that finishes has left exactly this text in the file. The witness
  is the scenario of the specification, \<open>"X\nSTART\nold\nEND\nY"\<close> patched to
  \<open>"X\nNEW\nEND\nY"\<close>.
\<close>

theorem patched_output_is_splice:
  assumes "files w path = Some text"
    and "first_occurrence startMarker text startIndex"
    and "first_occurrence endMarker text endIndex"
  shows "new_content text (str_find text startMarker) (str_find text endMarker) replacement
           = take startIndex text @ replacement @ drop endIndex text
       \<and> (\<exists>rest. drop endIndex text = endMarker @ rest
            \<and> new_content text (str_find text startMarker) (str_find text endMarker) replacement
                = take startIndex text @ replacement @ endMarker @ rest)
       \<and> (write_access w path = Granted \<longrightarrow>
            fst (patcher path startMarker endMarker replacement w) = Finished)
       \<and> (fst (patcher path startMarker endMarker replacement w) = Finished \<longrightarrow>
            files (snd (patcher path startMarker endMarker replacement w)) path
              = Some (take startIndex text @ replacement @ drop endIndex text))"
proof -
  have "prefix endMarker (drop endIndex text)"
    using assms(3) by (simp add: first_occurrence_def occurs_at_def)
  then obtain rest where "drop endIndex text = endMarker @ rest"
    by (auto simp: prefix_def)
  moreover have "files (snd (patcher path startMarker endMarker replacement w)) path
      = Some (take startIndex text @ replacement @ drop endIndex text)"
    if "fst (patcher path startMarker endMarker replacement w) = Finished"
    using patcher_finished_granted[OF that] by (simp add: patcher_found_granted[OF assms])
  ultimately show ?thesis
    using new_content_first[OF assms(2,3), of replacement]
    by (auto simp: patcher_found_granted[OF assms])
qed

theorem patched_output_is_splice_witness:
  "files (snd (patcher file_path (lit ''START'') (lit ''END'') (lit ''NEW\<newline>'')
      \<lparr>files = [file_path \<mapsto> lit ''X\<newline>START\<newline>old\<newline>END\<newline>Y''],
       write_access = (\<lambda>p. Granted), stdout = [], effects = []\<rparr>)) file_path
   = Some (lit ''X\<newline>NEW\<newline>END\<newline>Y'')
   \<and> new_content (lit ''X\<newline>START\<newline>old\<newline>END\<newline>Y'') 2 12 (lit ''NEW\<newline>'')
     = lit ''X\<newline>NEW\<newline>END\<newline>Y''"
proof -
  let ?text = "lit ''X\<newline>START\<newline>old\<newline>END\<newline>Y''"
  let ?w = "\<lparr>files = [file_path \<mapsto> ?text], write_access = (\<lambda>p. Granted),
            stdout = [], effects = []\<rparr>"
  have f: "files ?w file_path = Some ?text" by simp
  have g: "write_access ?w file_path = Granted" by simp
  have si: "str_find ?text (lit ''START'') = 2" "str_find ?text (lit ''END'') = 12"
    by (simp_all add: str_find_def lit_def)
  have s: "first_occurrence (lit ''START'') ?text 2"
    using si(1) str_find_eq_index[of ?text "lit ''START''" 2] by simp
  have e: "first_occurrence (lit ''END'') ?text 12"
    using si(2) str_find_eq_index[of ?text "lit ''END''" 12] by simp
  have t: "take 2 ?text @ lit ''NEW\<newline>'' @ drop 12 ?text = lit ''X\<newline>NEW\<newline>END\<newline>Y''"
    by (simp add: lit_def)
  show ?thesis
    using patched_output_is_splice[OF f s e, of "lit ''NEW\<newline>''"] g
    unfolding si t by simp
qed



text \<open>
  C3. Marker location is first-occurrence-only, by plain substring search, and the two
  searches do not depend on each other: \<open>find\<close> returns the least offset at which the
  start marker occurs and the least offset at which the end marker occurs, whatever
  their order and however many later occurrences there are. The text before the first
  start marker is untouched, the text from there up to the first end marker is replaced,
  and the run prints its confirmation when it finishes and nothing else in any case: no
  warning about a second occurrence. The witness has each marker twice.
\<close>

theorem first_occurrence_only:
  assumes "files w path = Some text"
    and "first_occurrence startMarker text i"
    and "first_occurrence endMarker text j"
  shows "str_find text startMarker = int i
       \<and> str_find text endMarker = int j
       \<and> (\<forall>k. occurs_at startMarker text k \<longrightarrow> i \<le> k)
       \<and> (\<forall>k. occurs_at endMarker text k \<longrightarrow> j \<le> k)
       \<and> new_content text (str_find text startMarker) (str_find text endMarker) replacement
           = take i text @ replacement @ drop j text
       \<and> (write_access w path = Granted \<longrightarrow>
           patcher path startMarker endMarker replacement w =
           (Finished,
            w\<lparr>files := (files w)(path \<mapsto> take i text @ replacement @ drop j text),
              stdout := stdout w @ lit ''Successfully patched appointments.js'' @ [10],
              effects := effects w @
                [Read path text,
                 Wrote path (take i text @ replacement @ drop j text),
                 Printed (lit ''Successfully patched appointments.js'')]\<rparr>))
       \<and> stdout (snd (patcher path startMarker endMarker replacement w))
           = stdout w @
             (if fst (patcher path startMarker endMarker replacement w) = Finished
              then lit ''Successfully patched appointments.js'' @ [10] else [])
       \<and> take i (take i text @ replacement @ drop j text) = take i text"
proof -
  have least: "\<forall>k. occurs_at sub text k \<longrightarrow> n \<le> k"
    if "first_occurrence sub text n" for sub :: str and n
    using that first_occurrence_least by blast
  have "i \<le> length text" using assms(2) by (rule first_occurrence_le)
  then have "take i (take i text @ replacement @ drop j text) = take i text" by simp
  moreover have "stdout (snd (patcher path startMarker endMarker replacement w))
           = stdout w @
             (if fst (patcher path startMarker endMarker replacement w) = Finished
              then lit ''Successfully patched appointments.js'' @ [10] else [])"
    by (simp add: patcher_found[OF assms] split: access.split)
  ultimately show ?thesis
    using least[OF assms(2)] least[OF assms(3)] new_content_first[OF assms(2,3), of replacement]
    by (simp add: patcher_found_granted[OF assms] str_find_first[OF assms(2)]
        str_find_first[OF assms(3)])
qed

theorem first_occurrence_only_witness:
  "patcher file_path (lit ''START'') (lit ''END'') (lit ''NEW\<newline>'')
      \<lparr>files = [file_path \<mapsto> lit ''aSTARTbSTARTcENDdENDe''],
       write_access = (\<lambda>p. Granted), stdout = [], effects = []\<rparr>
   = (Finished,
      \<lparr>files = [file_path \<mapsto> lit ''aNEW\<newline>ENDdENDe''],
       write_access = (\<lambda>p. Granted),
       stdout = lit ''Successfully patched appointments.js\<newline>'',
       effects = [Read file_path (lit ''aSTARTbSTARTcENDdENDe''),
                  Wrote file_path (lit ''aNEW\<newline>ENDdENDe''),
                  Printed (lit ''Successfully patched appointments.js'')]\<rparr>)
   \<and> occurs_at (lit ''START'') (lit ''aSTARTbSTARTcENDdENDe'') 1
   \<and> occurs_at (lit ''START'') (lit ''aSTARTbSTARTcENDdENDe'') 7"
proof -
  let ?text = "lit ''aSTARTbSTARTcENDdENDe''"
  let ?w = "\<lparr>files = [file_path \<mapsto> ?text], write_access = (\<lambda>p. Granted),
            stdout = [], effects = []\<rparr>"
  have f: "files ?w file_path = Some ?text" by simp
  have s: "first_occurrence (lit ''START'') ?text 1"
    by (simp add: str_find_eq_index[symmetric] str_find_def lit_def)
  have e: "first_occurrence (lit ''END'') ?text 13"
    by (simp add: str_find_eq_index[symmetric] str_find_def lit_def)
  have o: "occurs_at (lit ''START'') ?text 1 \<and> occurs_at (lit ''START'') ?text 7"
    by (simp add: occurs_at_def lit_def)
  have "patcher file_path (lit ''START'') (lit ''END'') (lit ''NEW\<newline>'') ?w =
           (Finished,
            ?w\<lparr>files := (files ?w)(file_path \<mapsto> take 1 ?text @ lit ''NEW\<newline>'' @ drop 13 ?text),
              stdout := stdout ?w @ lit ''Successfully patched appointments.js'' @ [10],
              effects := effects ?w @
                [Read file_path ?text,
                 Wrote file_path (take 1 ?text @ lit ''NEW\<newline>'' @ drop 13 ?text),
                 Printed (lit ''Successfully patched appointments.js'')]\<rparr>)"
    using first_occurrence_only[OF f s e, of "lit ''NEW\<newline>''"] by simp
  then show ?thesis using o by (simp add: lit_def)
qed

text \<open>
  C4. The patch is one-shot. For every document in which the start marker occurs exactly
  once, before the first end marker, a first run that patches the file is followed by a
  second run that fails: the start marker no longer occurs in the patched text, the run
  prints the diagnostic with \<open>start=-1\<close>, exits with status 1 and leaves the once-patched
  text as it is.
\<close>

theorem second_run_fails:
  assumes "files w file_path = Some text"
    and "first_occurrence start_marker text i"
    and "\<forall>k. occurs_at start_marker text k \<longrightarrow> k = i"
    and "first_occurrence end_marker text j"
    and "i < j"
    and "write_access w file_path = Granted"
  shows "\<exists>w1 w2 patched.
      patch_appointments w = (Finished, w1)
    \<and> patched = take i text @ new_block @ drop j text
    \<and> files w1 file_path = Some patched
    \<and> \<not> sublist start_marker patched
    \<and> str_find patched start_marker = - 1
    \<and> str_find patched end_marker = int (i + length new_block)
    \<and> patch_appointments w1 = (SystemExit 1, w2)
    \<and> exit_status (SystemExit 1) \<noteq> 0
    \<and> files w2 = files w1
    \<and> stdout w2 = stdout w1 @ lit ''Markers not found! start=-1, end=''
                          @ str_int (int (i + length new_block)) @ [10]
    \<and> effects w2 = effects w1 @
          [Read file_path patched,
           Printed (lit ''Markers not found! start=-1, end=''
                    @ str_int (int (i + length new_block)))]"
proof -
  let ?patched = "take i text @ new_block @ drop j text"
  let ?w1 = "w\<lparr>files := (files w)(file_path \<mapsto> ?patched),
        stdout := stdout w @ lit ''Successfully patched appointments.js'' @ [10],
        effects := effects w @
          [Read file_path text, Wrote file_path ?patched,
           Printed (lit ''Successfully patched appointments.js'')]\<rparr>"
  have i: "i \<le> length text" using assms(2) by (rule first_occurrence_le)
  have j: "j \<le> length text" using assms(4) by (rule first_occurrence_le)
  have ne: "start_marker \<noteq> []" by (rule start_marker_facts(1))
  have run1: "patch_appointments w = (Finished, ?w1)"
    unfolding patch_appointments_def by (rule patcher_found_granted[OF assms(1,2,4,6)])
  have no_start: "\<not> occurs_at start_marker ?patched k" for k
  proof
    assume "occurs_at start_marker ?patched k"
    then consider "k + length start_marker \<le> i" "occurs_at start_marker text k"
      | "i + length new_block \<le> k"
        "occurs_at start_marker text (k - (i + length new_block) + j)"
      using marker_occurrence_is_old[OF _ _ i j, of start_marker k] by blast
    then show False
    proof cases
      case 1
      then have "k = i" using assms(3) by blast
      then show False using 1(1) ne by simp
    next
      case 2
      then have "k - (i + length new_block) + j = i" using assms(3) by blast
      then show False using assms(5) by simp
    qed
  qed
  then have absent: "\<not> sublist start_marker ?patched" by (simp add: sublist_occurs)
  have at: "occurs_at end_marker ?patched (i + length new_block)"
  proof -
    have "prefix end_marker (drop j text)"
      using assms(4) by (simp add: first_occurrence_def occurs_at_def)
    then show ?thesis using i by (simp add: occurs_at_def)
  qed
  have "\<not> occurs_at end_marker ?patched k" if "k < i + length new_block" for k
  proof
    assume "occurs_at end_marker ?patched k"
    then have "occurs_at end_marker text k" "k + length end_marker \<le> i"
      using marker_occurrence_is_old[OF _ _ i j, of end_marker k] that by auto
    then have "j \<le> k" using assms(4) first_occurrence_least by blast
    then show False using \<open>k + length end_marker \<le> i\<close> assms(5) by simp
  qed
  then have "first_occurrence end_marker ?patched (i + length new_block)"
    using at by (simp add: first_occurrence_def)
  then have endidx: "str_find ?patched end_marker = int (i + length new_block)"
    by (rule str_find_first)
  have startidx: "str_find ?patched start_marker = - 1"
    using absent by (rule str_find_absent)
  have f1: "files ?w1 file_path = Some ?patched" by simp
  let ?msg = "lit ''Markers not found! start=-1, end=''
              @ str_int (int (i + length new_block))"
  have msg: "not_found_message (- 1) (int (i + length new_block)) = ?msg"
    by (simp add: not_found_message_def str_int_minus1 lit_def)
  let ?w2 = "?w1\<lparr>stdout := stdout ?w1 @ ?msg @ [10],
        effects := effects ?w1 @ [Read file_path ?patched, Printed ?msg]\<rparr>"
  have run2: "patch_appointments ?w1 = (SystemExit 1, ?w2)"
    using patcher_not_found[OF f1, of start_marker end_marker new_block] absent
    unfolding patch_appointments_def startidx endidx msg by simp
  show ?thesis
    apply (rule exI[of _ ?w1])
    apply (rule exI[of _ ?w2])
    apply (rule exI[of _ ?patched])
    apply (simp only: run1 run2 startidx endidx absent f1 simp_thms)
    apply simp
    done
qed

theorem second_run_fails_witness:
  "\<exists>w1 w2.
      patch_appointments
        \<lparr>files = [file_path \<mapsto> start_marker @ end_marker],
         write_access = (\<lambda>p. Granted), stdout = [], effects = []\<rparr>
        = (Finished, w1)
    \<and> files w1 file_path = Some (new_block @ end_marker)
    \<and> patch_appointments w1 = (SystemExit 1, w2)
    \<and> files w2 = files w1"
proof -
  let ?text = "start_marker @ end_marker"
  let ?w = "\<lparr>files = [file_path \<mapsto> ?text], write_access = (\<lambda>p. Granted),
            stdout = [], effects = []\<rparr>"
  have f: "files ?w file_path = Some ?text" by simp
  have g: "write_access ?w file_path = Granted" by simp
  have s: "first_occurrence start_marker ?text 0" by (rule first_occurrence_at_front)
  have "\<not> sublist start_marker (drop (Suc 0) ?text)"
    using markers_text(1) by (simp add: str_find_eq_minus1)
  then have once: "\<forall>k. occurs_at start_marker ?text k \<longrightarrow> k = 0"
    using only_occurrence[OF s] by simp
  have e: "first_occurrence end_marker ?text (length start_marker)"
    using markers_text(2) by (simp add: str_find_eq_index)
  have lt: "0 < length start_marker" using start_marker_facts(1) by simp
  show ?thesis
    using second_run_fails[OF f s once e lt g] by auto
qed

text \<open>
  C5. Nothing checks that \<open>startIndex < endIndex\<close>. When the first end marker precedes the
  first start marker the splice is still made from the raw indices: \<open>new_content\<close> is
  \<open>text[0:startIndex] + replacement + text[endIndex:]\<close>, in which the text between the
  two indices now stands twice. The run is not aborted by the guard, and when the write
  is accepted the file holds this text and the run ends as a success.
\<close>

theorem inverted_bounds_still_spliced:
  assumes "files w path = Some text"
    and "first_occurrence startMarker text startIndex"
    and "first_occurrence endMarker text endIndex"
    and "endIndex < startIndex"
  shows "new_content text (str_find text startMarker) (str_find text endMarker) replacement
           = take startIndex text @ replacement @ drop endIndex text
       \<and> (write_access w path = Granted \<longrightarrow>
           patcher path startMarker endMarker replacement w =
           (Finished,
            w\<lparr>files := (files w)(path \<mapsto>
                  take startIndex text @ replacement @ drop endIndex text),
              stdout := stdout w @ lit ''Successfully patched appointments.js'' @ [10],
              effects := effects w @
                [Read path text,
                 Wrote path (take startIndex text @ replacement @ drop endIndex text),
                 Printed (lit ''Successfully patched appointments.js'')]\<rparr>))
       \<and> fst (patcher path startMarker endMarker replacement w) \<noteq> SystemExit 1
       \<and> length (take startIndex text @ replacement @ drop endIndex text)
           = length text + length replacement + (startIndex - endIndex)"
proof -
  have "startIndex \<le> length text" using assms(2) by (rule first_occurrence_le)
  moreover have "fst (patcher path startMarker endMarker replacement w) \<noteq> SystemExit 1"
    by (simp add: patcher_found[OF assms(1-3)] split: access.split)
  ultimately show ?thesis
    using assms(4) new_content_first[OF assms(2,3), of replacement]
    by (simp add: patcher_found_granted[OF assms(1-3)])
qed

theorem inverted_bounds_still_spliced_witness:
  "patcher file_path (lit ''START'') (lit ''END'') (lit ''NEW\<newline>'')
      \<lparr>files = [file_path \<mapsto> lit ''aENDbSTARTc''],
       write_access = (\<lambda>p. Granted), stdout = [], effects = []\<rparr>
   = (Finished,
      \<lparr>files = [file_path \<mapsto> lit ''aENDbNEW\<newline>ENDbSTARTc''],
       write_access = (\<lambda>p. Granted),
       stdout = lit ''Successfully patched appointments.js\<newline>'',
       effects = [Read file_path (lit ''aENDbSTARTc''),
                  Wrote file_path (lit ''aENDbNEW\<newline>ENDbSTARTc''),
                  Printed (lit ''Successfully patched appointments.js'')]\<rparr>)"
proof -
  let ?text = "lit ''aENDbSTARTc''"
  let ?w = "\<lparr>files = [file_path \<mapsto> ?text], write_access = (\<lambda>p. Granted),
            stdout = [], effects = []\<rparr>"
  have f: "files ?w file_path = Some ?text" by simp
  have s: "first_occurrence (lit ''START'') ?text 5"
    by (simp add: str_find_eq_index[symmetric] str_find_def lit_def)
  have e: "first_occurrence (lit ''END'') ?text 1"
    by (simp add: str_find_eq_index[symmetric] str_find_def lit_def)
  have lt: "(1::nat) < 5" by simp
  have "patcher file_path (lit ''START'') (lit ''END'') (lit ''NEW\<newline>'') ?w =
           (Finished,
            ?w\<lparr>files := (files ?w)(file_path \<mapsto> take 5 ?text @ lit ''NEW\<newline>'' @ drop 1 ?text),
              stdout := stdout ?w @ lit ''Successfully patched appointments.js'' @ [10],
              effects := effects ?w @
                [Read file_path ?text,
                 Wrote file_path (take 5 ?text @ lit ''NEW\<newline>'' @ drop 1 ?text),
                 Printed (lit ''Successfully patched appointments.js'')]\<rparr>)"
    using inverted_bounds_still_spliced[OF f s e lt, of "lit ''NEW\<newline>''"] by simp
  then show ?thesis by (simp add: lit_def)
qed




text \<open>
  C7. The frame of the splice. On every successful run the text outside the replaced span
  is kept: the output begins with \<open>text[0:startIndex]\<close> and ends with \<open>text[endIndex:]\<close>,
  so the end marker itself survives, at offset \<open>startIndex + len(replacement)\<close> of the
  output. No other file is touched.
\<close>

theorem splice_frame:
  assumes "files w path = Some text"
    and "first_occurrence startMarker text startIndex"
    and "first_occurrence endMarker text endIndex"
    and "fst (patcher path startMarker endMarker replacement w) = Finished"
  shows "\<exists>w' out.
      patcher path startMarker endMarker replacement w = (Finished, w')
    \<and> files w' path = Some out
    \<and> prefix (take startIndex text) out
    \<and> take startIndex out = take startIndex text
    \<and> length (take startIndex text) = startIndex
    \<and> suffix (drop endIndex text) out
    \<and> drop (startIndex + length replacement) out = drop endIndex text
    \<and> occurs_at endMarker out (startIndex + length replacement)
    \<and> (\<forall>p. p \<noteq> path \<longrightarrow> files w' p = files w p)"
proof -
  let ?out = "take startIndex text @ replacement @ drop endIndex text"
  have g: "write_access w path = Granted" using assms(4) by (rule patcher_finished_granted)
  have le: "startIndex \<le> length text" using assms(2) by (rule first_occurrence_le)
  have pre: "prefix endMarker (drop endIndex text)"
    using assms(3) by (simp add: first_occurrence_def occurs_at_def)
  have d: "drop (startIndex + length replacement) ?out = drop endIndex text"
    using le by simp
  have "occurs_at endMarker ?out (startIndex + length replacement)"
    unfolding occurs_at_def using le pre d by simp
  moreover have "suffix (drop endIndex text) ?out"
    by (metis append.assoc suffixI)
  ultimately show ?thesis using le d
    by (simp add: patcher_found_granted[OF assms(1-3) g])
qed

theorem splice_frame_witness:
  "\<exists>w' out.
      patcher file_path (lit ''START'') (lit ''END'') (lit ''NEW\<newline>'')
        \<lparr>files = [file_path \<mapsto> lit ''aSTARTbENDc''],
         write_access = (\<lambda>p. Granted), stdout = [], effects = []\<rparr> = (Finished, w')
    \<and> files w' file_path = Some out
    \<and> prefix (lit ''a'') out
    \<and> suffix (lit ''ENDc'') out
    \<and> occurs_at (lit ''END'') out 5"
proof -
  let ?text = "lit ''aSTARTbENDc''"
  let ?w = "\<lparr>files = [file_path \<mapsto> ?text], write_access = (\<lambda>p. Granted),
            stdout = [], effects = []\<rparr>"
  have f: "files ?w file_path = Some ?text" by simp
  have g: "write_access ?w file_path = Granted" by simp
  have s: "first_occurrence (lit ''START'') ?text 1"
    by (simp add: str_find_eq_index[symmetric] str_find_def lit_def)
  have e: "first_occurrence (lit ''END'') ?text 7"
    by (simp add: str_find_eq_index[symmetric] str_find_def lit_def)
  have fin: "fst (patcher file_path (lit ''START'') (lit ''END'') (lit ''NEW\<newline>'') ?w) = Finished"
    by (simp add: patcher_found_granted[OF f s e g])
  have t: "take 1 ?text = lit ''a''" "drop 7 ?text = lit ''ENDc''"
      "1 + length (lit ''NEW\<newline>'') = 5"
    by (simp_all add: lit_def)
  show ?thesis
    using splice_frame[OF f s e fin] unfolding t by blast
qed

text \<open>
  C8. When the guard passes (neither \<open>find\<close> returned \<open>-1\<close>) both indices are offsets
  into the text: at least 0, and the marker found there ends within the text. The slices
  of the write path are then plain \<open>take\<close> and \<open>drop\<close> at these offsets (no bound is
  negative or clamped), so the splice is defined for every replacement. A run on a
  readable file is then not aborted, and it finishes when the write is accepted.
\<close>

theorem guard_gives_valid_offsets:
  assumes "str_find text startMarker \<noteq> - 1"
    and "str_find text endMarker \<noteq> - 1"
  shows "0 \<le> str_find text startMarker
       \<and> str_find text startMarker + int (length startMarker) \<le> int (length text)
       \<and> 0 \<le> str_find text endMarker
       \<and> str_find text endMarker + int (length endMarker) \<le> int (length text)
       \<and> slice_upto text (str_find text startMarker)
           = take (nat (str_find text startMarker)) text
       \<and> length (slice_upto text (str_find text startMarker))
           = nat (str_find text startMarker)
       \<and> slice_from text (str_find text endMarker)
           = drop (nat (str_find text endMarker)) text
       \<and> length (slice_from text (str_find text endMarker))
           = length text - nat (str_find text endMarker)
       \<and> (\<forall>replacement.
             new_content text (str_find text startMarker) (str_find text endMarker) replacement
             = take (nat (str_find text startMarker)) text @ replacement
               @ drop (nat (str_find text endMarker)) text)
       \<and> (\<forall>w path replacement. files w path = Some text \<longrightarrow>
             fst (patcher path startMarker endMarker replacement w) \<noteq> SystemExit 1
           \<and> (write_access w path = Granted \<longrightarrow>
                fst (patcher path startMarker endMarker replacement w) = Finished))"
proof -
  obtain i where i: "first_occurrence startMarker text i" "str_find text startMarker = int i"
    using str_find_cases[of startMarker "text"] assms(1) by auto
  obtain j where j: "first_occurrence endMarker text j" "str_find text endMarker = int j"
    using str_find_cases[of endMarker "text"] assms(2) by auto
  have "i + length startMarker \<le> length text" "j + length endMarker \<le> length text"
    using i(1) j(1) by (auto simp: first_occurrence_def dest: occurs_at_length)
  moreover have "\<forall>w path replacement. files w path = Some text \<longrightarrow>
             fst (patcher path startMarker endMarker replacement w) \<noteq> SystemExit 1
           \<and> (write_access w path = Granted \<longrightarrow>
                fst (patcher path startMarker endMarker replacement w) = Finished)"
    using patcher_found[OF _ i(1) j(1)] by (simp split: access.split)
  ultimately show ?thesis
    unfolding i(2) j(2) new_content_def slice_upto_nat slice_from_nat by simp
qed

theorem guard_gives_valid_offsets_witness:
  "str_find (lit ''aSTARTbENDc'') (lit ''START'') = 1
   \<and> str_find (lit ''aSTARTbENDc'') (lit ''END'') = 7
   \<and> slice_upto (lit ''aSTARTbENDc'') 1 = lit ''a''
   \<and> slice_from (lit ''aSTARTbENDc'') 7 = lit ''ENDc''
   \<and> fst (patcher file_path (lit ''START'') (lit ''END'') (lit ''NEW\<newline>'')
        \<lparr>files = [file_path \<mapsto> lit ''aSTARTbENDc''],
         write_access = (\<lambda>p. Granted), stdout = [], effects = []\<rparr>) = Finished"
proof -
  let ?text = "lit ''aSTARTbENDc''"
  let ?w = "\<lparr>files = [file_path \<mapsto> ?text], write_access = (\<lambda>p. Granted),
            stdout = [], effects = []\<rparr>"
  have f: "files ?w file_path = Some ?text" by simp
  have g: "write_access ?w file_path = Granted" by simp
  have s: "str_find ?text (lit ''START'') = 1"
    by (simp add: str_find_def lit_def)
  have e: "str_find ?text (lit ''END'') = 7"
    by (simp add: str_find_def lit_def)
  have s': "str_find ?text (lit ''START'') \<noteq> - 1" using s by simp
  have e': "str_find ?text (lit ''END'') \<noteq> - 1" using e by simp
  have t: "take 1 ?text = lit ''a''" "drop 7 ?text = lit ''ENDc''"
    by (simp_all add: lit_def)
  show ?thesis
    using guard_gives_valid_offsets[OF s' e'] f g t unfolding s e by simp
qed

text \<open>
  C9. The replacement block contains neither marker: \<open>find\<close> returns \<open>-1\<close> for both.
  A patched document therefore gains no marker from the replacement: every occurrence
  of a marker in \<open>text[:i] + new_block + text[j:]\<close> lies wholly in the kept prefix or
  wholly in the kept suffix (none overlaps the block) and is an occurrence of the
  original text. The end marker that a patched document is sure to hold is the one at
  the head of the kept suffix \<open>text[endIndex:]\<close>.
\<close>

theorem new_block_has_no_marker:
  "str_find new_block start_marker = - 1
 \<and> str_find new_block end_marker = - 1
 \<and> (\<forall>text i j k. i \<le> length text \<and> j \<le> length text
        \<and> occurs_at start_marker (take i text @ new_block @ drop j text) k \<longrightarrow>
          (k + length start_marker \<le> i \<and> occurs_at start_marker text k)
        \<or> (i + length new_block \<le> k
           \<and> occurs_at start_marker text (k - (i + length new_block) + j)))
 \<and> (\<forall>text i j k. i \<le> length text \<and> j \<le> length text
        \<and> occurs_at end_marker (take i text @ new_block @ drop j text) k \<longrightarrow>
          (k + length end_marker \<le> i \<and> occurs_at end_marker text k)
        \<or> (i + length new_block \<le> k
           \<and> occurs_at end_marker text (k - (i + length new_block) + j)))
 \<and> (\<forall>text i j. first_occurrence start_marker text i \<and> first_occurrence end_marker text j \<longrightarrow>
        occurs_at end_marker (take i text @ new_block @ drop j text) (i + length new_block)
      \<and> drop (i + length new_block) (take i text @ new_block @ drop j text) = drop j text)"
proof -
  have a: "str_find new_block start_marker = - 1" "str_find new_block end_marker = - 1"
    using start_marker_not_in_new_block end_marker_not_in_new_block
    by (simp_all add: str_find_eq_minus1)
  have b: "occurs_at end_marker (take i text @ new_block @ drop j text) (i + length new_block)
      \<and> drop (i + length new_block) (take i text @ new_block @ drop j text) = drop j text"
    if "first_occurrence start_marker text i" "first_occurrence end_marker text j"
    for "text" i j
  proof -
    have le: "i \<le> length text" using that(1) by (rule first_occurrence_le)
    have "prefix end_marker (drop j text)"
      using that(2) by (simp add: first_occurrence_def occurs_at_def)
    then show ?thesis using le by (simp add: occurs_at_def)
  qed
  show ?thesis
    using a b marker_occurrence_is_old[of start_marker] marker_occurrence_is_old[of end_marker]
    by blast
qed

theorem new_block_has_no_marker_witness:
  "str_find new_block start_marker = - 1
 \<and> str_find new_block end_marker = - 1
 \<and> occurs_at end_marker (new_block @ end_marker) (length new_block)"
proof -
  let ?text = "start_marker @ end_marker"
  have s: "first_occurrence start_marker ?text 0" by (rule first_occurrence_at_front)
  have e: "first_occurrence end_marker ?text (length start_marker)"
    using markers_text(2) by (simp add: str_find_eq_index)
  have "occurs_at end_marker (take 0 ?text @ new_block @ drop (length start_marker) ?text)
          (0 + length new_block)"
    using new_block_has_no_marker s e by blast
  then show ?thesis using new_block_has_no_marker by simp
qed




end
